theory Spec2Isabelle
  imports Complex_Main "HOL-Library.Sublist" "HOL-Library.Multiset"
begin

section \<open>Parallel keyword search: the data model\<close>

text \<open>
  The two modules \<^verbatim>\<open>search_multiprocessing.py\<close> and \<^verbatim>\<open>search_threading.py\<close> share
  their file collection, their partition function \<^verbatim>\<open>_chunks\<close>, their safe reader
  \<^verbatim>\<open>_read_text_safely\<close> and the keyword loop; they differ in how workers hand results
  back. A \<^verbatim>\<open>pathlib.Path\<close> is represented by the string \<^verbatim>\<open>str(p)\<close>, Python \<^verbatim>\<open>str\<close> values
  by HOL strings (a character outside ASCII by the bytes of its UTF-8 encoding, under
  which containment of texts is containment of the byte sequences), and
  \<^verbatim>\<open>kw in content\<close> by \<^const>\<open>sublist\<close> (contiguous containment).
\<close>

type_synonym Path = string

text \<open>
  The exceptions that occur. \<^verbatim>\<open>Path.read_text\<close> fails with an \<^verbatim>\<open>OSError\<close> (missing
  file, permissions) or a \<^verbatim>\<open>UnicodeError\<close> (invalid UTF-8), each carrying its message;
  these are the two classes that \<^verbatim>\<open>_read_text_safely\<close> handles. \<^verbatim>\<open>range\<close> raises
  \<^verbatim>\<open>ValueError\<close> on a zero step, which nothing handles.
\<close>

datatype read_exc = OSError string | UnicodeError string

datatype exc = ValueError string

text \<open>
  What the program takes from its platform and from the Python runtime: the
  enumeration \<^verbatim>\<open>root.rglob("*")\<close>, \<^verbatim>\<open>p.is_file()\<close>, \<^verbatim>\<open>p.suffix\<close>,
  \<^verbatim>\<open>p.read_text(encoding="utf-8", errors="strict")\<close> (an error of the two read classes,
  or the decoded text), the built-in \<^verbatim>\<open>str.lower()\<close> and \<^verbatim>\<open>os.cpu_count()\<close> (\<open>None\<close>, or a
  count). \<^verbatim>\<open>str.lower()\<close> is the Unicode lowering of the runtime; it is a parameter, and
  every general statement below holds for whatever function it is.
\<close>

record env =
  rglob :: "Path \<Rightarrow> Path list"
  is_file :: "Path \<Rightarrow> bool"
  suffix_of :: "Path \<Rightarrow> string"
  read_text :: "Path \<Rightarrow> read_exc + string"
  lower :: "string \<Rightarrow> string"
  cpu_count :: "nat option"

text \<open>
  Lines written to standard output: \<^verbatim>\<open>[WARN] Cannot read {path}: {exc}\<close>,
  \<^verbatim>\<open>[INFO] No files found to scan.\<close>, and the closing report with the number of files
  (its elapsed-time figure is a wall-clock reading and is left out).
\<close>

datatype line = WARN Path read_exc | INFO_no_files | REPORT nat

text \<open>A result dictionary: keyword to list of path strings.\<close>

type_synonym result = "string \<rightharpoonup> string list"

section \<open>Built-ins\<close>

text \<open>
  \<^verbatim>\<open>range(start, stop, step)\<close> for non-negative arguments, which is all that
  \<^verbatim>\<open>_chunks\<close> passes: a zero step raises, a positive step counts up to below \<open>stop\<close>.
\<close>

function range_up :: "nat \<Rightarrow> nat \<Rightarrow> nat \<Rightarrow> nat list" where
  "range_up i stop step =
     (if step = 0 \<or> stop \<le> i then [] else i # range_up (i + step) stop step)"
  by pat_completeness auto
termination
  by (relation "measure (\<lambda>(i, stop, step). stop - i)") auto

declare range_up.simps [simp del]

definition py_range :: "nat \<Rightarrow> nat \<Rightarrow> nat \<Rightarrow> exc + nat list" where
  "py_range start stop step =
     (if step = 0 then Inl (ValueError ''range() arg 3 must not be zero'')
      else Inr (range_up start stop step))"

text \<open>The slice \<^verbatim>\<open>seq[i : j]\<close> for \<open>0 \<le> i \<le> j\<close>; it stops at the end of the list.\<close>

definition slice :: "'a list \<Rightarrow> nat \<Rightarrow> nat \<Rightarrow> 'a list" where
  "slice seq i j = take (j - i) (drop i seq)"

text \<open>
  Reading \<^verbatim>\<open>d[k]\<close> of a \<^verbatim>\<open>defaultdict(list)\<close> for the purpose of extending it: a
  missing key starts from the empty list.
\<close>

definition dd_get :: "result \<Rightarrow> string \<Rightarrow> string list" where
  "dd_get d k = (case d k of None \<Rightarrow> [] | Some ps \<Rightarrow> ps)"

text \<open>\<^verbatim>\<open>d[k].append(v)\<close>.\<close>

definition dd_append :: "result \<Rightarrow> string \<Rightarrow> string \<Rightarrow> result" where
  "dd_append d k v = d(k \<mapsto> dd_get d k @ [v])"

text \<open>
  \<^verbatim>\<open>for kw, paths in partial.items(): aggregated[kw].extend(paths)\<close>: every key of
  \<open>partial\<close> extends its list in \<open>aggregated\<close>; the keys are distinct, so the order of the
  iteration does not matter for the mapping.
\<close>

definition dd_extend_all :: "result \<Rightarrow> result \<Rightarrow> result" where
  "dd_extend_all aggregated partial =
     (\<lambda>kw. case partial kw of
              None \<Rightarrow> aggregated kw
            | Some paths \<Rightarrow> Some (dd_get aggregated kw @ paths))"

section \<open>The shared functions\<close>

text \<open>\<^verbatim>\<open>_read_text_safely\<close>: the text, or \<open>None\<close> after printing a warning.\<close>

definition read_text_safely :: "env \<Rightarrow> Path \<Rightarrow> line list \<times> string option" where
  "read_text_safely e path =
     (case read_text e path of
        Inr content \<Rightarrow> ([], Some content)
      | Inl x \<Rightarrow> ([WARN path x], None))"

text \<open>
  The keyword iterations of \<^verbatim>\<open>_worker_process\<close> (lines 55 to 63) and \<^verbatim>\<open>_scan_file\<close>
  (lines 45 to 55), which are the same code: with \<open>case_insensitive\<close> the content is
  lowered once and each keyword is lowered for the test; the key recorded is the
  keyword as given.
\<close>

definition record_matches :: "env \<Rightarrow> bool \<Rightarrow> string \<Rightarrow> Path \<Rightarrow> string list \<Rightarrow> result \<Rightarrow> result" where
  "record_matches e case_insensitive content fp keywords out_map =
     (if case_insensitive then
        (let content_cmp = lower e content in
         foldl (\<lambda>m kw. if sublist (lower e kw) content_cmp then dd_append m kw fp else m)
               out_map keywords)
      else
        foldl (\<lambda>m kw. if sublist kw content then dd_append m kw fp else m)
              out_map keywords)"

text \<open>
  \<^verbatim>\<open>_scan_file\<close> of the threading module: one file scanned into the shared map (each
  append happens under the lock, so it is one step on the map).
\<close>

definition scan_file :: "env \<Rightarrow> Path \<Rightarrow> string list \<Rightarrow> result \<Rightarrow> bool \<Rightarrow> line list \<times> result" where
  "scan_file e file_path keywords out_map case_insensitive =
     (case read_text_safely e file_path of
        (out, None) \<Rightarrow> (out, out_map)
      | (out, Some content) \<Rightarrow>
          (out, record_matches e case_insensitive content file_path keywords out_map))"

text \<open>
  \<^verbatim>\<open>_worker_process\<close> of the multiprocessing module: the loop over the files of the
  chunk, carrying the lines printed and the local dictionary, which is what the
  worker puts into the queue.
\<close>

fun worker_loop :: "env \<Rightarrow> string list \<Rightarrow> bool \<Rightarrow> Path list \<Rightarrow> line list \<times> result \<Rightarrow> line list \<times> result" where
  "worker_loop e keywords ci [] st = st"
| "worker_loop e keywords ci (fp # fps) (out, local) =
     (case read_text_safely e fp of
        (w, None) \<Rightarrow> worker_loop e keywords ci fps (out @ w, local)
      | (w, Some content) \<Rightarrow>
          worker_loop e keywords ci fps (out @ w, record_matches e ci content fp keywords local))"

definition worker_process :: "env \<Rightarrow> Path list \<Rightarrow> string list \<Rightarrow> bool \<Rightarrow> line list \<times> result" where
  "worker_process e files keywords case_insensitive =
     worker_loop e keywords case_insensitive files ([], Map.empty)"

text \<open>\<^verbatim>\<open>_chunks\<close>, identical in both modules.\<close>

definition chunks :: "'a list \<Rightarrow> int \<Rightarrow> exc + 'a list list" where
  "chunks seq n =
     (if n \<le> 0 then Inr [seq]
      else
        (let size = nat ((int (length seq) + n - 1) div n) in
         case py_range 0 (length seq) size of
           Inl x \<Rightarrow> Inl x
         | Inr starts \<Rightarrow> Inr (map (\<lambda>i. slice seq i (i + size)) starts)))"

section \<open>The orchestrators\<close>

text \<open>
  Of \<^verbatim>\<open>threaded_search\<close> the sequential part is covered (file collection, number of
  threads, partition, the guard on empty batches), with the same definitions as for
  \<^verbatim>\<open>multiprocessing_search\<close>. Its thread target is a closure that looks the variable
  \<^verbatim>\<open>batch\<close> up when the thread runs, so which chunk a thread scans, and how the threads
  interleave their appends on the shared map, depends on the scheduling; that part is
  not modelled, and nothing below is about the mapping that \<^verbatim>\<open>threaded_search\<close> returns.
  \<^verbatim>\<open>multiprocessing_search\<close>, which hands each process its batch as an argument, is
  covered whole.

  File collection (lines 100 to 107, and 89 to 96 of the threading module): regular
  files in enumeration order; a filter that is given and non-empty keeps a file when
  its lowered suffix is one of the filter's entries.
\<close>

definition collect_files :: "env \<Rightarrow> Path \<Rightarrow> string set option \<Rightarrow> Path list" where
  "collect_files e source_dir allow_extensions =
     filter (\<lambda>p. is_file e p \<and>
                 (case allow_extensions of
                    None \<Rightarrow> True
                  | Some exts \<Rightarrow> if exts \<noteq> {} then lower e (suffix_of e p) \<in> exts else True))
            (rglob e source_dir)"

text \<open>\<^verbatim>\<open>os.cpu_count() or d\<close>: \<open>None\<close> and \<open>0\<close> are falsy.\<close>

definition cpu_count_or :: "env \<Rightarrow> nat \<Rightarrow> nat" where
  "cpu_count_or e d = (case cpu_count e of None \<Rightarrow> d | Some c \<Rightarrow> if c = 0 then d else c)"

definition max_procs :: "env \<Rightarrow> nat" where
  "max_procs e = cpu_count_or e 2"

definition num_procs :: "env \<Rightarrow> Path list \<Rightarrow> int" where
  "num_procs e files = max 1 (min (int (length files)) (int (max_procs e)))"

definition max_threads :: "env \<Rightarrow> nat" where
  "max_threads e = cpu_count_or e 4"

definition num_threads :: "env \<Rightarrow> Path list \<Rightarrow> int" where
  "num_threads e files = max 1 (min (int (length files)) (int (max_threads e)))"

text \<open>
  The order in which the workers' results arrive in the queue is decided by the
  scheduler. It is a parameter: a list of choices, each picking which of the workers
  still running finishes next; with no choices left they finish in spawn order.
\<close>

fun completion :: "nat list \<Rightarrow> 'a list \<Rightarrow> 'a list" where
  "completion sched [] = []"
| "completion [] xs = xs"
| "completion (c # sched) xs =
     (let j = c mod length xs in xs ! j # completion sched (take j xs @ drop (Suc j) xs))"

text \<open>
  Lines 116 to 138 of \<^verbatim>\<open>multiprocessing_search\<close>: one process per non-empty batch, the
  partial results merged in arrival order. An exception of \<^verbatim>\<open>_chunks\<close> propagates. The
  lines that the workers print are listed worker by worker in arrival order; the
  properties below only use which lines occur.
\<close>

definition run_processes ::
  "env \<Rightarrow> Path list \<Rightarrow> string list \<Rightarrow> bool \<Rightarrow> int \<Rightarrow> nat list \<Rightarrow> exc + line list \<times> result" where
  "run_processes e files keywords case_insensitive n sched =
     (case chunks files n of
        Inl x \<Rightarrow> Inl x
      | Inr batches \<Rightarrow>
          (let procs = filter (\<lambda>batch. batch \<noteq> []) batches;
               queue = completion sched
                         (map (\<lambda>batch. worker_process e batch keywords case_insensitive) procs);
               aggregated = foldl dd_extend_all Map.empty (map snd queue)
           in Inr (concat (map fst queue), aggregated)))"

definition multiprocessing_search ::
  "env \<Rightarrow> Path \<Rightarrow> string list \<Rightarrow> string set option \<Rightarrow> bool \<Rightarrow> nat list \<Rightarrow> exc + line list \<times> result" where
  "multiprocessing_search e source_dir keywords allow_extensions case_insensitive sched =
     (let files = collect_files e source_dir allow_extensions in
      if files = [] then Inr ([INFO_no_files], Map.empty)
      else
        (case run_processes e files keywords case_insensitive (num_procs e files) sched of
           Inl x \<Rightarrow> Inl x
         | Inr (out, aggregated) \<Rightarrow> Inr (out @ [REPORT (length files)], aggregated)))"

section \<open>Notions used to state the properties\<close>

text \<open>
  When a keyword counts as found in a content: plain containment, or containment after
  lowering both sides.
\<close>

definition matches :: "env \<Rightarrow> bool \<Rightarrow> string \<Rightarrow> string \<Rightarrow> bool" where
  "matches e ci kw content = (if ci then sublist (lower e kw) (lower e content) else sublist kw content)"

text \<open>The occurrences of the key \<open>k\<close> in the keyword sequence that are found in a content.\<close>

definition found :: "env \<Rightarrow> bool \<Rightarrow> string \<Rightarrow> string list \<Rightarrow> string \<Rightarrow> string list" where
  "found e ci content keywords k = filter (\<lambda>kw. kw = k \<and> matches e ci kw content) keywords"

text \<open>
  What one file contributes to the list of key \<open>k\<close>: its path once for every such
  occurrence, and nothing when it cannot be read.
\<close>

definition hits :: "env \<Rightarrow> bool \<Rightarrow> string list \<Rightarrow> string \<Rightarrow> Path \<Rightarrow> Path list" where
  "hits e ci keywords k fp =
     (case read_text e fp of Inl x \<Rightarrow> [] | Inr content \<Rightarrow> map (\<lambda>kw. fp) (found e ci content keywords k))"

text \<open>No key is bound to the empty list.\<close>

definition no_empty :: "result \<Rightarrow> bool" where
  "no_empty d = (\<forall>k. d k \<noteq> Some [])"

text \<open>A result dictionary read as a set of (keyword, path) pairs.\<close>

definition pairs :: "result \<Rightarrow> (string \<times> string) set" where
  "pairs d = {(k, p). \<exists>ps. d k = Some ps \<and> p \<in> set ps}"

section \<open>A sample directory\<close>

text \<open>
  A directory with five entries, searched from inside it (\<^verbatim>\<open>source_dir = "."\<close>, so the
  paths enumerated are the bare names): three texts, one text with an upper-case
  extension, and one file that is not valid UTF-8; two CPUs. Names, contents and
  keywords of the sample are ASCII, where \<^verbatim>\<open>str.lower()\<close> sends \<^verbatim>\<open>A\<close> to \<^verbatim>\<open>Z\<close> to \<^verbatim>\<open>a\<close> to
  \<^verbatim>\<open>z\<close> and leaves every other character alone.
\<close>

definition lower_char :: "char \<Rightarrow> char" where
  "lower_char c =
     (case map_of (zip ''ABCDEFGHIJKLMNOPQRSTUVWXYZ'' ''abcdefghijklmnopqrstuvwxyz'') c of
        None \<Rightarrow> c
      | Some d \<Rightarrow> d)"

definition ascii_lower :: "string \<Rightarrow> string" where
  "ascii_lower s = map lower_char s"

definition sample_env :: env where
  "sample_env =
     \<lparr>rglob = (\<lambda>d. [''a.txt'', ''b.txt'', ''c.md'', ''d.TXT'', ''e.bin'']),
      is_file = (\<lambda>p. True),
      suffix_of = (\<lambda>p. if p = ''c.md'' then ''.md''
                        else if p = ''d.TXT'' then ''.TXT''
                        else if p = ''e.bin'' then ''.bin''
                        else ''.txt''),
      read_text = (\<lambda>p. if p = ''a.txt'' then Inr ''alpha beta''
                        else if p = ''b.txt'' then Inr ''beta gamma''
                        else if p = ''c.md'' then Inr ''alpha''
                        else if p = ''d.TXT'' then Inr ''the foo bar''
                        else Inl (UnicodeError ''invalid start byte'')),
      lower = ascii_lower,
      cpu_count = Some 2\<rparr>"

section \<open>Dictionaries, the keyword iteration and the worker\<close>

lemma dd_get_append: "dd_get (dd_append d k v) k' = dd_get d k' @ (if k' = k then [v] else [])"
  by (simp add: dd_get_def dd_append_def)

lemma no_empty_append: "no_empty d \<Longrightarrow> no_empty (dd_append d k v)"
  by (simp add: no_empty_def dd_append_def)

lemma dd_get_extend_all: "dd_get (dd_extend_all a p) k = dd_get a k @ dd_get p k"
  by (simp add: dd_get_def dd_extend_all_def split: option.splits)

lemma no_empty_extend_all: "no_empty a \<Longrightarrow> no_empty p \<Longrightarrow> no_empty (dd_extend_all a p)"
  by (auto simp: no_empty_def dd_extend_all_def split: option.splits)

lemma no_empty_lookup: "no_empty d \<Longrightarrow> d k = (if dd_get d k = [] then None else Some (dd_get d k))"
  by (cases "d k") (auto simp: no_empty_def dd_get_def)

lemma no_empty_empty: "no_empty Map.empty"
  by (simp add: no_empty_def)

lemma dd_get_empty: "dd_get Map.empty k = []"
  by (simp add: dd_get_def)

lemma foldl_matches_get:
  "dd_get (foldl (\<lambda>m kw. if P kw then dd_append m kw fp else m) d kws) k
     = dd_get d k @ map (\<lambda>kw. fp) (filter (\<lambda>kw. kw = k \<and> P kw) kws)"
  by (induction kws arbitrary: d) (auto simp: dd_get_append)

lemma foldl_matches_no_empty:
  "no_empty d \<Longrightarrow> no_empty (foldl (\<lambda>m kw. if P kw then dd_append m kw fp else m) d kws)"
  by (induction kws arbitrary: d) (auto simp: no_empty_append)

lemma record_matches_get:
  "dd_get (record_matches e ci content fp kws d) k = dd_get d k @ map (\<lambda>kw. fp) (found e ci content kws k)"
  by (simp add: record_matches_def found_def matches_def foldl_matches_get Let_def)

lemma record_matches_no_empty: "no_empty d \<Longrightarrow> no_empty (record_matches e ci content fp kws d)"
  by (simp add: record_matches_def foldl_matches_no_empty Let_def)

lemma worker_loop_get:
  "dd_get (snd (worker_loop e kws ci files (out, local))) k
     = dd_get local k @ concat (map (hits e ci kws k) files)"
  by (induction files arbitrary: out local)
     (auto simp: read_text_safely_def hits_def record_matches_get split: sum.splits)

lemma worker_loop_no_empty:
  "no_empty local \<Longrightarrow> no_empty (snd (worker_loop e kws ci files (out, local)))"
  by (induction files arbitrary: out local)
     (auto simp: read_text_safely_def record_matches_no_empty split: sum.splits)

lemma worker_loop_out:
  "fst (worker_loop e kws ci files (out, local))
     = out @ concat (map (\<lambda>fp. fst (read_text_safely e fp)) files)"
  by (induction files arbitrary: out local)
     (auto simp: read_text_safely_def split: sum.splits)

lemma worker_process_get:
  "dd_get (snd (worker_process e files kws ci)) k = concat (map (hits e ci kws k) files)"
  by (simp add: worker_process_def worker_loop_get dd_get_empty)

lemma worker_process_no_empty: "no_empty (snd (worker_process e files kws ci))"
  by (simp add: worker_process_def worker_loop_no_empty no_empty_empty)

lemma foldl_extend_get:
  "dd_get (foldl dd_extend_all a ps) k = dd_get a k @ concat (map (\<lambda>p. dd_get p k) ps)"
  by (induction ps arbitrary: a) (auto simp: dd_get_extend_all)

lemma foldl_extend_no_empty:
  "no_empty a \<Longrightarrow> \<forall>p \<in> set ps. no_empty p \<Longrightarrow> no_empty (foldl dd_extend_all a ps)"
  by (induction ps arbitrary: a) (auto simp: no_empty_extend_all)

lemma mset_remove_nth: "j < length xs \<Longrightarrow> add_mset (xs ! j) (mset (take j xs @ drop (Suc j) xs)) = mset xs"
  by (metis append_take_drop_id Cons_nth_drop_Suc mset.simps(2) mset_append union_mset_add_mset_right)

lemma mset_completion: "mset (completion sched xs) = mset xs"
proof (induction sched xs rule: completion.induct)
  case (3 c sched x xs)
  let ?ys = "x # xs"
  let ?j = "c mod length ?ys"
  have j: "?j < length ?ys" by simp
  have "mset (completion (c # sched) ?ys)
          = add_mset (?ys ! ?j) (mset (completion sched (take ?j ?ys @ drop (Suc ?j) ?ys)))"
    by (simp add: Let_def)
  also have "\<dots> = add_mset (?ys ! ?j) (mset (take ?j ?ys @ drop (Suc ?j) ?ys))"
    using 3 by (simp add: Let_def)
  also have "\<dots> = mset ?ys" using j by (rule mset_remove_nth)
  finally show ?case .
qed simp_all

lemma mset_concat_map_cong:
  "mset xs = mset ys \<Longrightarrow> mset (concat (map f xs)) = mset (concat (map f ys))"
  by (metis mset_concat mset_map sum_mset_sum_list)

section \<open>The partition function\<close>

lemma range_up_concat:
  "0 < step \<Longrightarrow>
   concat (map (\<lambda>i. slice seq i (i + step)) (range_up i (length seq) step)) = drop i seq"
proof (induction i "length seq" step rule: range_up.induct)
  case (1 i step)
  show ?case
  proof (cases "length seq \<le> i")
    case True
    then show ?thesis by (simp add: range_up.simps)
  next
    case False
    with 1 have "concat (map (\<lambda>i. slice seq i (i + step)) (range_up (i + step) (length seq) step))
                   = drop (i + step) seq"
      by simp
    moreover have "take step (drop i seq) @ drop (i + step) seq = drop i seq"
      by (metis append_take_drop_id drop_drop add.commute)
    ultimately show ?thesis using False 1(2)
      by (subst range_up.simps) (simp add: slice_def)
  qed
qed

lemma range_up_eq:
  "0 < step \<Longrightarrow>
   range_up i stop step = map (\<lambda>k. i + k * step) [0..<(stop - i + step - 1) div step]"
proof (induction i stop step rule: range_up.induct)
  case (1 i stop step)
  show ?case
  proof (cases "stop \<le> i")
    case True
    with 1(2) show ?thesis by (simp add: range_up.simps)
  next
    case False
    define m where "m = (stop - (i + step) + step - 1) div step"
    have ih: "range_up (i + step) stop step = map (\<lambda>k. i + step + k * step) [0..<m]"
      using 1 False by (simp add: m_def)
    have cnt: "(stop - i + step - 1) div step = Suc m"
    proof (cases "stop \<le> i + step")
      case True
      with False 1(2) have "(stop - i + step - 1) div step = 1"
        by (intro div_nat_eqI) auto
      moreover from True 1(2) have "m = 0" by (simp add: m_def)
      ultimately show ?thesis by simp
    next
      case False
      define x where "x = stop - (i + step) + step - 1"
      from False have "stop - i + step - 1 = x + step" by (simp add: x_def)
      moreover have "(x + step) div step = Suc (x div step)" using 1(2) by simp
      ultimately show ?thesis by (simp only: m_def x_def)
    qed
    have "map (\<lambda>k. i + k * step) [0..<Suc m] = i # map (\<lambda>k. i + step + k * step) [0..<m]"
      by (simp add: upt_rec [of 0 "Suc m"] map_Suc_upt [symmetric] del: upt_Suc) 
    with False 1(2) ih cnt show ?thesis
      by (subst range_up.simps) simp
  qed
qed

lemma size_pos:
  assumes "0 < n" "seq \<noteq> []"
  shows "0 < nat ((int (length seq) + n - 1) div n)"
proof -
  have "n \<le> int (length seq) + n - 1" using assms by (cases seq) auto
  then have "0 < (int (length seq) + n - 1) div n"
    using assms(1) pos_imp_zdiv_pos_iff [of n "int (length seq) + n - 1"] by simp
  then show ?thesis by simp
qed

lemma size_covers:
  assumes "0 < n"
  shows "length seq \<le> nat n * nat ((int (length seq) + n - 1) div n)"
proof -
  let ?l = "int (length seq)"
  have "?l + n - 1 = n * ((?l + n - 1) div n) + (?l + n - 1) mod n" by simp
  moreover have "(?l + n - 1) mod n < n" using assms by simp
  ultimately have "?l \<le> n * ((?l + n - 1) div n)" by linarith
  moreover have "0 \<le> (?l + n - 1) div n" using assms by (simp add: pos_imp_zdiv_nonneg_iff)
  ultimately show ?thesis using assms
    by (metis nat_mult_distrib nat_int nat_mono order_less_imp_le)
qed

lemma count_le:
  assumes "0 < s" "l \<le> m * s"
  shows "(l + s - 1) div s \<le> (m::nat)"
proof -
  define t where "t = s - 1"
  have t: "t < s" using assms(1) by (simp add: t_def)
  have "(l + s - 1) div s \<le> (t + m * s) div s"
    using assms by (intro div_le_mono) (simp add: t_def)
  also have "\<dots> = m" using t by simp
  finally show ?thesis .
qed

lemma neg_div_ceiling:
  assumes "0 < (n::int)"
  shows "- (- l div n) = (l + n - 1) div n"
proof -
  define q where "q = (l + n - 1) div n"
  have "l + n - 1 = n * q + (l + n - 1) mod n" by (simp add: q_def)
  moreover have "0 \<le> (l + n - 1) mod n" "(l + n - 1) mod n < n" using assms by simp_all
  ultimately have "n * (- q) \<le> - l" "- l < n * (- q) + n" by (simp_all add: algebra_simps)
  then have "- l div n = - q"
    by (intro int_div_pos_eq [where r = "- l - n * (- q)"]) simp_all
  then show ?thesis by (simp add: q_def)
qed

lemma size_ceiling:
  assumes "0 < n"
  shows "(int l + n - 1) div n = \<lceil>real l / real_of_int n\<rceil>"
  using ceiling_divide_eq_div [where 'a = real, of "int l" n] neg_div_ceiling [OF assms, of "int l"] by simp

lemma range_up_bound: "0 < step \<Longrightarrow> j \<in> set (range_up i stop step) \<Longrightarrow> j < stop"
proof (induction i stop step rule: range_up.induct)
  case (1 i stop step)
  from 1(3) have "\<not> stop \<le> i" by (subst (asm) range_up.simps) (auto split: if_splits)
  with 1 show ?case by (subst (asm) (2) range_up.simps) (auto split: if_splits)
qed

lemma chunks_pos:
  assumes "0 < n" "seq \<noteq> []"
  shows "chunks seq n =
           Inr (map (\<lambda>i. slice seq i (i + nat ((int (length seq) + n - 1) div n)))
                    (range_up 0 (length seq) (nat ((int (length seq) + n - 1) div n))))"
  using assms size_pos [OF assms] by (simp add: chunks_def py_range_def Let_def)

lemma chunks_concat:
  assumes "chunks seq n = Inr cs"
  shows "concat cs = seq"
proof (cases "n \<le> 0")
  case True
  with assms show ?thesis by (auto simp: chunks_def)
next
  case False
  define size where "size = nat ((int (length seq) + n - 1) div n)"
  from False assms have "0 < size"
    by (auto simp: chunks_def py_range_def Let_def size_def split: if_splits)
  moreover from False assms this
  have "cs = map (\<lambda>i. slice seq i (i + size)) (range_up 0 (length seq) size)"
    by (auto simp: chunks_def py_range_def Let_def size_def split: if_splits)
  ultimately show ?thesis using range_up_concat [of size seq 0] by simp
qed

lemma chunks_nonempty:
  assumes "0 < n" "seq \<noteq> []" "chunks seq n = Inr cs"
  shows "[] \<notin> set cs"
proof
  assume "[] \<in> set cs"
  define size where "size = nat ((int (length seq) + n - 1) div n)"
  have sz: "0 < size" unfolding size_def using assms(1,2) by (rule size_pos)
  from assms have "cs = map (\<lambda>i. slice seq i (i + size)) (range_up 0 (length seq) size)"
    by (simp add: chunks_pos size_def)
  with \<open>[] \<in> set cs\<close> obtain i where "i \<in> set (range_up 0 (length seq) size)" "slice seq i (i + size) = []"
    by auto
  with sz range_up_bound [OF sz, of i 0 "length seq"] show False
    by (simp add: slice_def)
qed

lemma chunks_length:
  assumes "0 < n" "seq \<noteq> []" "chunks seq n = Inr cs"
  shows "length cs \<le> nat n"
proof -
  define size where "size = nat ((int (length seq) + n - 1) div n)"
  have sz: "0 < size" unfolding size_def using assms(1,2) by (rule size_pos)
  from assms have "cs = map (\<lambda>i. slice seq i (i + size)) (range_up 0 (length seq) size)"
    by (simp add: chunks_pos size_def)
  then have "length cs = (length seq + size - 1) div size"
    using sz by (simp add: range_up_eq)
  also have "\<dots> \<le> nat n"
    using sz size_covers [OF assms(1), of seq] by (intro count_le) (simp_all add: size_def)
  finally show ?thesis .
qed

lemma chunks_nth:
  assumes "0 < n" "seq \<noteq> []" "chunks seq n = Inr cs" "k < length cs"
  shows "cs ! k = take (nat ((int (length seq) + n - 1) div n)) (drop (k * nat ((int (length seq) + n - 1) div n)) seq)"
proof -
  define size where "size = nat ((int (length seq) + n - 1) div n)"
  have sz: "0 < size" unfolding size_def using assms(1,2) by (rule size_pos)
  from assms have "cs = map (\<lambda>i. slice seq i (i + size)) (range_up 0 (length seq) size)"
    by (simp add: chunks_pos size_def)
  then have cs: "cs = map (\<lambda>k. slice seq (k * size) (k * size + size)) [0..<(length seq + size - 1) div size]"
    using sz by (simp add: range_up_eq o_def)
  with assms(4) show ?thesis by (simp add: slice_def size_def)
qed

lemma chunks_full:
  assumes "0 < n" "seq \<noteq> []" "chunks seq n = Inr cs" "Suc k < length cs"
  shows "length (cs ! k) = nat ((int (length seq) + n - 1) div n)"
proof -
  define size where "size = nat ((int (length seq) + n - 1) div n)"
  have sz: "0 < size" unfolding size_def using assms(1,2) by (rule size_pos)
  from assms have "cs = map (\<lambda>i. slice seq i (i + size)) (range_up 0 (length seq) size)"
    by (simp add: chunks_pos size_def)
  then have len: "length cs = (length seq + size - 1) div size"
    using sz by (simp add: range_up_eq)
  have "Suc k * size < length seq"
  proof (rule ccontr)
    assume "\<not> Suc k * size < length seq"
    then have "(length seq + size - 1) div size \<le> Suc k" using sz by (intro count_le) simp_all
    with assms(4) len show False by simp
  qed
  moreover have "cs ! k = take size (drop (k * size) seq)"
    using chunks_nth [OF assms(1,2,3), of k] assms(4) by (simp add: size_def)
  ultimately show ?thesis by (simp add: size_def)
qed

section \<open>The pipeline of the multiprocessing module\<close>

lemma concat_map_concat_chunks:
  "concat (map (\<lambda>b. concat (map f b)) procs) = concat (map f (concat procs))"
  by (induction procs) auto

lemma concat_nonempty: "concat (filter (\<lambda>b. b \<noteq> []) cs) = concat cs"
  by (induction cs) auto

lemma run_processes_result:
  assumes "chunks files n = Inr cs"
  shows "\<exists>out m. run_processes e files kws ci n sched = Inr (out, m) \<and> no_empty m
           \<and> (\<forall>k. mset (dd_get m k) = mset (concat (map (hits e ci kws k) files)))
           \<and> mset out = mset (concat (map (\<lambda>fp. fst (read_text_safely e fp)) files))"
proof -
  define procs where "procs = filter (\<lambda>batch. batch \<noteq> []) cs"
  define W where "W = (\<lambda>batch. worker_process e batch kws ci)"
  define queue where "queue = completion sched (map W procs)"
  define m where "m = foldl dd_extend_all Map.empty (map snd queue)"
  have run: "run_processes e files kws ci n sched = Inr (concat (map fst queue), m)"
    using assms by (simp add: run_processes_def procs_def W_def queue_def m_def Let_def)
  have files: "concat procs = files"
    using chunks_concat [OF assms] by (simp add: procs_def concat_nonempty)
  have q: "mset queue = mset (map W procs)"
    by (simp add: queue_def mset_completion)
  have "\<forall>p \<in> set (map snd queue). no_empty p"
  proof
    fix p assume "p \<in> set (map snd queue)"
    then obtain w where "w \<in> set queue" "p = snd w" by auto
    moreover have "set queue = set (map W procs)" using q by (rule mset_eq_setD)
    ultimately show "no_empty p" by (auto simp: W_def worker_process_no_empty)
  qed
  then have ne: "no_empty m"
    unfolding m_def by (intro foldl_extend_no_empty no_empty_empty)
  have get: "mset (dd_get m k) = mset (concat (map (hits e ci kws k) files))" for k
  proof -
    have "dd_get m k = concat (map (\<lambda>w. dd_get (snd w) k) queue)"
      by (simp add: m_def foldl_extend_get dd_get_empty o_def)
    then have "mset (dd_get m k) = mset (concat (map (\<lambda>w. dd_get (snd w) k) (map W procs)))"
      using mset_concat_map_cong [OF q] by simp
    also have "\<dots> = mset (concat (map (\<lambda>b. concat (map (hits e ci kws k) b)) procs))"
      by (simp add: W_def worker_process_get o_def)
    also have "\<dots> = mset (concat (map (hits e ci kws k) files))"
      by (simp add: concat_map_concat_chunks files)
    finally show ?thesis .
  qed
  have "mset (concat (map fst queue)) = mset (concat (map fst (map W procs)))"
    using mset_concat_map_cong [OF q] by simp
  also have "\<dots> = mset (concat (map (\<lambda>b. concat (map (\<lambda>fp. fst (read_text_safely e fp)) b)) procs))"
    by (simp add: W_def worker_process_def worker_loop_out o_def)
  also have "\<dots> = mset (concat (map (\<lambda>fp. fst (read_text_safely e fp)) files))"
    by (simp add: concat_map_concat_chunks files)
  finally have "mset (concat (map fst queue)) = mset (concat (map (\<lambda>fp. fst (read_text_safely e fp)) files))" .
  with run ne get show ?thesis by blast
qed

lemma chunks_returns:
  assumes "seq \<noteq> [] \<or> n \<le> 0"
  shows "\<exists>cs. chunks seq n = Inr cs"
proof (cases "n \<le> 0")
  case True
  then show ?thesis by (simp add: chunks_def)
next
  case False
  with assms show ?thesis by (simp add: chunks_pos)
qed

lemma num_procs_pos: "0 < num_procs e files"
  by (simp add: num_procs_def)

lemma search_result:
  "\<exists>out m. multiprocessing_search e d kws allow ci sched = Inr (out, m) \<and> no_empty m
      \<and> (\<forall>k. mset (dd_get m k) = mset (concat (map (hits e ci kws k) (collect_files e d allow))))
      \<and> (\<forall>fp x. fp \<in> set (collect_files e d allow) \<and> read_text e fp = Inl x \<longrightarrow> WARN fp x \<in> set out)"
proof (cases "collect_files e d allow = []")
  case True
  then show ?thesis
    by (simp add: multiprocessing_search_def no_empty_empty dd_get_empty)
next
  case False
  define files where "files = collect_files e d allow"
  from False obtain cs where "chunks files (num_procs e files) = Inr cs"
    using chunks_returns [of files] by (auto simp: files_def)
  from run_processes_result [OF this, of e kws ci sched]
  obtain out m where r: "run_processes e files kws ci (num_procs e files) sched = Inr (out, m)"
    "no_empty m" "\<forall>k. mset (dd_get m k) = mset (concat (map (hits e ci kws k) files))"
    "mset out = mset (concat (map (\<lambda>fp. fst (read_text_safely e fp)) files))"
    by blast
  have "WARN fp x \<in> set out" if "fp \<in> set files" "read_text e fp = Inl x" for fp x
  proof -
    have "set out = set (concat (map (\<lambda>fp. fst (read_text_safely e fp)) files))"
      using r(4) by (rule mset_eq_setD)
    moreover have "WARN fp x \<in> set (fst (read_text_safely e fp))"
      using that(2) by (simp add: read_text_safely_def)
    ultimately show ?thesis using that(1) by auto
  qed
  with False r show ?thesis
    by (auto simp: multiprocessing_search_def files_def Let_def)
qed

lemma set_hits:
  "F \<in> set (hits e ci kws K fp) \<longleftrightarrow>
     F = fp \<and> K \<in> set kws \<and> (\<exists>c. read_text e fp = Inr c \<and> matches e ci K c)"
  by (cases "read_text e fp") (auto simp: hits_def found_def)

lemma found_count:
  "map (\<lambda>kw. fp) (found e ci c kws K) = (if matches e ci K c then replicate (count_list kws K) fp else [])"
  by (induction kws) (auto simp: found_def)

lemma distinct_hits:
  assumes "distinct kws" "distinct files"
  shows "distinct (concat (map (hits e ci kws K) files))"
proof -
  have one: "hits e ci kws K fp = [] \<or> hits e ci kws K fp = [fp]" for fp
  proof -
    have "count_list kws K \<le> 1" using assms(1)
      by (induction kws) (auto simp: count_list_0_iff)
    then have "count_list kws K = 0 \<or> count_list kws K = 1" by linarith
    then show ?thesis
      by (auto simp: hits_def found_count split: sum.splits)
  qed
  have sub: "set (concat (map (hits e ci kws K) fs)) \<subseteq> set fs" for fs
    by (auto simp: set_hits)
  from assms(2) show ?thesis
  proof (induction files)
    case Nil
    then show ?case by simp
  next
    case (Cons f fs)
    from one [of f] show ?case
    proof
      assume "hits e ci kws K f = []"
      with Cons show ?thesis by simp
    next
      assume "hits e ci kws K f = [f]"
      with Cons sub [of fs] show ?thesis by auto
    qed
  qed
qed

lemma in_result_iff:
  "no_empty m \<Longrightarrow> (\<exists>ps. m K = Some ps \<and> F \<in> set ps) \<longleftrightarrow> F \<in> set (dd_get m K)"
  by (cases "m K") (auto simp: dd_get_def)

lemma set_hits_files:
  "F \<in> set (concat (map (hits e ci kws K) files)) \<longleftrightarrow>
     K \<in> set kws \<and> F \<in> set files \<and> (\<exists>c. read_text e F = Inr c \<and> matches e ci K c)"
  by (auto simp: set_hits)

lemma collect_files_distinct: "distinct (rglob e d) \<Longrightarrow> distinct (collect_files e d allow)"
  by (simp add: collect_files_def)

lemma distinct_count_list_le: "distinct xs \<Longrightarrow> count_list xs x \<le> 1"
  by (induction xs) (auto simp: count_list_0_iff)

lemma count_list_replicate_same: "count_list (replicate n x) x = n"
  by (induction n) auto

lemma dd_get_upd: "dd_get (d(k \<mapsto> v)) k' = (if k' = k then v else dd_get d k')"
  by (simp add: dd_get_def)

lemma foldl_matches_lookup:
  "foldl (\<lambda>m kw. if P kw then dd_append m kw fp else m) d kws k
     = (if k \<in> set kws \<and> P k then Some (dd_get d k @ replicate (count_list kws k) fp) else d k)"
proof (induction kws arbitrary: d)
  case Nil
  then show ?case by simp
next
  case (Cons kw kws)
  show ?case
    by (auto simp: Cons.IH dd_append_def dd_get_upd replicate_append_same count_list_0_iff)
qed

lemma record_matches_lookup:
  "record_matches e ci content fp kws d k
     = (if k \<in> set kws \<and> matches e ci k content
        then Some (dd_get d k @ replicate (count_list kws k) fp) else d k)"
  by (simp add: record_matches_def matches_def foldl_matches_lookup Let_def)

lemma pairs_dd_get: "no_empty m \<Longrightarrow> pairs m = {(k, p). p \<in> set (dd_get m k)}"
  by (auto simp: pairs_def in_result_iff)

lemma found_cpu_count [simp]: "found (e\<lparr>cpu_count := c\<rparr>) = found e"
  by (rule ext)+ (simp add: found_def matches_def)

lemma hits_cpu_count [simp]: "hits (e\<lparr>cpu_count := c\<rparr>) = hits e"
  by (rule ext)+ (simp add: hits_def split: sum.splits)

lemma collect_files_cpu_count [simp]: "collect_files (e\<lparr>cpu_count := c\<rparr>) = collect_files e"
  by (rule ext)+ (simp add: collect_files_def split: option.splits)

lemma hits_unreadable: "read_text e fp = Inl x \<Longrightarrow> hits e ci kws K fp = []"
  by (simp add: hits_def)

lemma concat_hits_without:
  "read_text e fp = Inl x \<Longrightarrow>
   concat (map (hits e ci kws K) (filter (\<lambda>f. f \<noteq> fp) files)) = concat (map (hits e ci kws K) files)"
  by (induction files) (auto simp: hits_unreadable)

lemma no_empty_ext:
  assumes "no_empty m1" "no_empty m2" "\<And>k. dd_get m1 k = dd_get m2 k"
  shows "m1 = m2"
proof
  fix k
  show "m1 k = m2 k"
    using no_empty_lookup [OF assms(1), of k] no_empty_lookup [OF assms(2), of k] assms(3) [of k]
    by simp
qed

lemma count_list_replicate_other: "count_list (replicate n x) y = (if x = y then n else 0)"
  by (induction n) auto

lemma count_list_hits:
  "count_list (hits e ci kws K f) F =
     (if F = f \<and> (\<exists>c. read_text e f = Inr c \<and> matches e ci K c) then count_list kws K else 0)"
  by (cases "read_text e f") (auto simp: hits_def found_count count_list_replicate_other)

lemma count_list_hits_files:
  "distinct files \<Longrightarrow>
   count_list (concat (map (hits e ci kws K) files)) F =
     (if F \<in> set files \<and> (\<exists>c. read_text e F = Inr c \<and> matches e ci K c)
      then count_list kws K else 0)"
proof (induction files)
  case Nil
  then show ?case by simp
next
  case (Cons f fs)
  then show ?case by (auto simp: count_list_hits)
qed

lemma mset_eq_count_list: "mset xs = mset ys \<Longrightarrow> count_list xs x = count_list ys x"
  by (metis count_mset)

lemma collect_files_keeps:
  "(exts \<noteq> {} \<longrightarrow>
      (p \<in> set (collect_files e d (Some exts)) \<longleftrightarrow>
         p \<in> set (rglob e d) \<and> is_file e p \<and> lower e (suffix_of e p) \<in> exts))
   \<and> (exts \<noteq> {} \<and> (\<forall>x \<in> exts. lower e x = x) \<longrightarrow>
      (p \<in> set (collect_files e d (Some exts)) \<longleftrightarrow>
         p \<in> set (rglob e d) \<and> is_file e p \<and> (\<exists>x \<in> exts. lower e x = lower e (suffix_of e p))))
   \<and> collect_files e d None = filter (is_file e) (rglob e d)
   \<and> collect_files e d (Some {}) = filter (is_file e) (rglob e d)"
proof -
  have 1: "p \<in> set (collect_files e d (Some exts)) \<longleftrightarrow>
         p \<in> set (rglob e d) \<and> is_file e p \<and> lower e (suffix_of e p) \<in> exts" if "exts \<noteq> {}"
    using that by (auto simp: collect_files_def)
  have 2: "lower e (suffix_of e p) \<in> exts \<longleftrightarrow> (\<exists>x \<in> exts. lower e x = lower e (suffix_of e p))"
    if "\<forall>x \<in> exts. lower e x = x"
    using that by metis
  have 3: "collect_files e d None = filter (is_file e) (rglob e d)"
    by (simp add: collect_files_def)
  have 4: "collect_files e d (Some {}) = filter (is_file e) (rglob e d)"
    by (simp add: collect_files_def)
  from 1 2 3 4 show ?thesis by blast
qed

section \<open>The claims\<close>

subsection \<open>Partitioning\<close>

text \<open>
  Claim C4, as amended. The claim reads: for every positive \<open>n\<close>, partitioning an empty
  file sequence returns an empty chunk sequence. The code does not: the chunk size is
  then zero and \<^verbatim>\<open>range\<close> rejects a zero step, as evaluated below. What
  holds is the orchestrator's guard: when no file is collected,
  \<^verbatim>\<open>multiprocessing_search\<close> returns the empty mapping after its notice, before any
  partitioning, and it never raises; the partition function returns normally on every
  non-empty sequence with a positive \<open>n\<close>, and with \<open>n \<le> 0\<close> it returns the single chunk
  \<open>[seq]\<close> for every sequence.
\<close>

theorem empty_files_short_circuit:
  "(collect_files e d allow = [] \<longrightarrow>
      multiprocessing_search e d keywords allow ci sched = Inr ([INFO_no_files], Map.empty))
   \<and> (\<forall>x. multiprocessing_search e d keywords allow ci sched \<noteq> Inl x)
   \<and> (seq \<noteq> [] \<and> 0 < n \<longrightarrow> (\<exists>cs. chunks seq n = Inr cs))
   \<and> (n \<le> 0 \<longrightarrow> chunks seq n = Inr [seq])"
proof -
  have "collect_files e d allow = [] \<longrightarrow>
          multiprocessing_search e d keywords allow ci sched = Inr ([INFO_no_files], Map.empty)"
    by (simp add: multiprocessing_search_def)
  moreover have "\<forall>x. multiprocessing_search e d keywords allow ci sched \<noteq> Inl x"
    using search_result [of e d "keywords" allow ci sched] by auto
  moreover have "seq \<noteq> [] \<and> 0 < n \<longrightarrow> (\<exists>cs. chunks seq n = Inr cs)"
    using chunks_returns [of seq n] by simp
  moreover have "n \<le> 0 \<longrightarrow> chunks seq n = Inr [seq]"
    by (simp add: chunks_def)
  ultimately show ?thesis by blast
qed

theorem empty_files_short_circuit_witness:
  "multiprocessing_search sample_env ''.'' [''alpha''] (Some {''.py''}) False []
     = Inr ([INFO_no_files], Map.empty)
   \<and> (\<exists>cs. chunks [''a.txt'', ''b.txt''] 2 = Inr cs)
   \<and> chunks ([] :: Path list) 0 = Inr [[]]"
proof -
  have h1: "collect_files sample_env ''.'' (Some {''.py''}) = []"
    by (simp add: collect_files_def sample_env_def ascii_lower_def lower_char_def)
  have h2: "[''a.txt'', ''b.txt''] \<noteq> [] \<and> (0::int) < 2" by simp
  have h3: "(0::int) \<le> 0" by simp
  from empty_files_short_circuit [of sample_env "''.''" "Some {''.py''}" "[''alpha'']" False "[]"
        "[''a.txt'', ''b.txt'']" 2]
    empty_files_short_circuit [of sample_env "''.''" "Some {''.py''}" "[''alpha'']" False "[]"
        "[] :: Path list" 0]
    h1 h2 h3
  show ?thesis by blast
qed

text \<open>The partition function applied to the empty sequence with one worker.\<close>

theorem chunks_empty_raises:
  "chunks ([] :: Path list) 1 = Inl (ValueError ''range() arg 3 must not be zero'')"
  by (simp add: chunks_def py_range_def)

text \<open>
  Claim C5. For a non-empty file sequence and a positive \<open>n\<close>, the partition consists of
  contiguous chunks of size \<open>\<lceil>len(files) / n\<rceil>\<close> carved in the original order: chunk \<open>k\<close>
  is the slice that starts at \<open>k * size\<close>, every chunk but the last has exactly \<open>size\<close>
  elements, the last one has between one and \<open>size\<close>, and the concatenation of the chunks
  is the input, so that no file is skipped, duplicated or reordered.
\<close>

theorem chunks_partition:
  assumes "files \<noteq> []" and "0 < n"
  shows "\<exists>cs. chunks files n = Inr cs
           \<and> concat cs = files
           \<and> cs \<noteq> []
           \<and> (\<forall>k < length cs. cs ! k = take (nat \<lceil>real (length files) / real_of_int n\<rceil>)
                                           (drop (k * nat \<lceil>real (length files) / real_of_int n\<rceil>) files))
           \<and> (\<forall>k. Suc k < length cs \<longrightarrow> length (cs ! k) = nat \<lceil>real (length files) / real_of_int n\<rceil>)
           \<and> 0 < length (last cs)
           \<and> length (last cs) \<le> nat \<lceil>real (length files) / real_of_int n\<rceil>"
proof -
  define size where "size = nat ((int (length files) + n - 1) div n)"
  have size: "nat \<lceil>real (length files) / real_of_int n\<rceil> = size"
    using size_ceiling [OF assms(2), of "length files"] by (simp add: size_def)
  obtain cs where cs: "chunks files n = Inr cs"
    using chunks_returns [of files n] assms(1) by blast
  have cat: "concat cs = files" using cs by (rule chunks_concat)
  with assms(1) have ne: "cs \<noteq> []" by auto
  have nth: "cs ! k = take size (drop (k * size) files)" if "k < length cs" for k
    using chunks_nth [OF assms(2,1) cs that] by (simp add: size_def)
  have full: "length (cs ! k) = size" if "Suc k < length cs" for k
    using chunks_full [OF assms(2,1) cs that] by (simp add: size_def)
  have "last cs \<in> set cs" using ne by simp
  moreover have "[] \<notin> set cs" using assms(2,1) cs by (rule chunks_nonempty)
  ultimately have pos: "0 < length (last cs)" by (cases "last cs") auto
  have "last cs = cs ! (length cs - 1)" using ne by (rule last_conv_nth)
  also have "\<dots> = take size (drop ((length cs - 1) * size) files)"
    using ne by (intro nth) simp
  finally have "length (last cs) \<le> size" by simp
  with cs cat ne nth full pos show ?thesis unfolding size by blast
qed

theorem chunks_partition_witness:
  "\<exists>cs. chunks [''a.txt'', ''b.txt'', ''c.md'', ''d.TXT'', ''e.bin''] 2 = Inr cs
      \<and> concat cs = [''a.txt'', ''b.txt'', ''c.md'', ''d.TXT'', ''e.bin'']
      \<and> 0 < length (last cs)"
proof -
  have h1: "[''a.txt'', ''b.txt'', ''c.md'', ''d.TXT'', ''e.bin''] \<noteq> []" by simp
  have h2: "(0::int) < 2" by simp
  from chunks_partition [OF h1 h2] show ?thesis by blast
qed

text \<open>
  Claim C10. For a non-empty file sequence and \<open>n \<ge> 1\<close>, every chunk is non-empty and
  there are at most \<open>n\<close> chunks; so the guard that skips empty batches removes nothing,
  in particular for the worker counts that the two orchestrators compute.
\<close>

theorem chunks_never_empty:
  assumes "files \<noteq> []" and "1 \<le> n"
  shows "(\<exists>cs. chunks files n = Inr cs \<and> [] \<notin> set cs \<and> length cs \<le> nat n
              \<and> filter (\<lambda>batch. batch \<noteq> []) cs = cs)
       \<and> (\<exists>cs. chunks files (num_procs e files) = Inr cs \<and> filter (\<lambda>batch. batch \<noteq> []) cs = cs)
       \<and> (\<exists>cs. chunks files (num_threads e files) = Inr cs \<and> filter (\<lambda>batch. batch \<noteq> []) cs = cs)"
proof -
  have gen: "\<exists>cs. chunks files m = Inr cs \<and> [] \<notin> set cs \<and> length cs \<le> nat m
                \<and> filter (\<lambda>batch. batch \<noteq> []) cs = cs" if "0 < m" for m
  proof -
    obtain cs where cs: "chunks files m = Inr cs"
      using chunks_returns [of files m] assms(1) by blast
    have ne: "[] \<notin> set cs" using that assms(1) cs by (rule chunks_nonempty)
    have "length cs \<le> nat m" using that assms(1) cs by (rule chunks_length)
    moreover from ne have "filter (\<lambda>batch. batch \<noteq> []) cs = cs" by (induction cs) auto
    ultimately show ?thesis using cs ne by blast
  qed
  have "0 < n" using assms(2) by simp
  moreover have "0 < num_procs e files" by (simp add: num_procs_def)
  moreover have "0 < num_threads e files" by (simp add: num_threads_def)
  ultimately show ?thesis using gen by blast
qed

theorem chunks_never_empty_witness:
  "\<exists>cs. chunks [''a.txt'', ''b.txt'', ''c.md''] 5 = Inr cs \<and> [] \<notin> set cs \<and> length cs \<le> 5"
proof -
  have h1: "[''a.txt'', ''b.txt'', ''c.md''] \<noteq> []" by simp
  have h2: "(1::int) \<le> 5" by simp
  from chunks_never_empty [OF h1 h2] show ?thesis by auto
qed

subsection \<open>The number of workers\<close>

text \<open>
  Claim C9. The worker count is \<open>max(1, min(file_count, available_parallelism))\<close>, where
  the available parallelism is the CPU count that the platform reports, and 2 in the
  multiprocessing module, 4 in the threading module, when it reports none; this is the
  count with which \<^verbatim>\<open>multiprocessing_search\<close> partitions a non-empty file list.
\<close>

theorem worker_count:
  "(cpu_count e = None \<longrightarrow>
      num_procs e files = max 1 (min (int (length files)) 2)
    \<and> num_threads e files = max 1 (min (int (length files)) 4))
   \<and> (\<forall>c. cpu_count e = Some c \<and> 0 < c \<longrightarrow>
      num_procs e files = max 1 (min (int (length files)) (int c))
    \<and> num_threads e files = max 1 (min (int (length files)) (int c)))
   \<and> (collect_files e d allow \<noteq> [] \<longrightarrow>
      multiprocessing_search e d keywords allow ci sched =
        (case run_processes e (collect_files e d allow) keywords ci
                (max 1 (min (int (length (collect_files e d allow))) (int (cpu_count_or e 2)))) sched of
           Inl x \<Rightarrow> Inl x
         | Inr (out, aggregated) \<Rightarrow> Inr (out @ [REPORT (length (collect_files e d allow))], aggregated)))"
  by (auto simp: num_procs_def num_threads_def max_procs_def max_threads_def cpu_count_or_def
                 multiprocessing_search_def Let_def)

theorem worker_count_witness:
  "num_procs sample_env [''a.txt'', ''b.txt'', ''c.md''] = 2
   \<and> num_threads sample_env [''a.txt'', ''b.txt'', ''c.md''] = 2
   \<and> num_procs (sample_env\<lparr>cpu_count := None\<rparr>) [''a.txt'', ''b.txt'', ''c.md''] = 2
   \<and> num_threads (sample_env\<lparr>cpu_count := None\<rparr>) [''a.txt'', ''b.txt'', ''c.md''] = 3"
proof -
  have h1: "cpu_count sample_env = Some 2 \<and> (0::nat) < 2" by (simp add: sample_env_def)
  have h2: "cpu_count (sample_env\<lparr>cpu_count := None\<rparr>) = None" by simp
  from worker_count [of sample_env "[''a.txt'', ''b.txt'', ''c.md'']"] h1
  have "num_procs sample_env [''a.txt'', ''b.txt'', ''c.md''] = 2
      \<and> num_threads sample_env [''a.txt'', ''b.txt'', ''c.md''] = 2"
    by auto
  moreover from worker_count [of "sample_env\<lparr>cpu_count := None\<rparr>" "[''a.txt'', ''b.txt'', ''c.md'']"] h2
  have "num_procs (sample_env\<lparr>cpu_count := None\<rparr>) [''a.txt'', ''b.txt'', ''c.md''] = 2
      \<and> num_threads (sample_env\<lparr>cpu_count := None\<rparr>) [''a.txt'', ''b.txt'', ''c.md''] = 3"
    by auto
  ultimately show ?thesis by blast
qed

subsection \<open>File collection\<close>

text \<open>
  Claim C7. The claim: with a non-empty filter a file is kept iff its suffix equals
  some entry of the filter up to case, and an absent or empty filter keeps all files;
  the docstring has it that only files with these extensions are scanned, compared in
  lower case. The code lowers the suffix and not the entries, so an entry with an
  upper-case letter keeps no file at all. Evaluated on the sample with the filter
  \<^verbatim>\<open>{".TXT"}\<close>: the file whose suffix is that very entry is dropped, the file whose
  suffix equals the entry up to case is dropped, nothing is collected and the search
  returns the empty mapping after its notice.
\<close>

theorem uppercase_filter_entry_keeps_nothing:
  "''d.TXT'' \<in> set (rglob sample_env ''.'')
   \<and> is_file sample_env ''d.TXT''
   \<and> suffix_of sample_env ''d.TXT'' \<in> {''.TXT''}
   \<and> ''d.TXT'' \<notin> set (collect_files sample_env ''.'' (Some {''.TXT''}))
   \<and> ''a.txt'' \<in> set (rglob sample_env ''.'')
   \<and> is_file sample_env ''a.txt''
   \<and> lower sample_env (suffix_of sample_env ''a.txt'') = lower sample_env ''.TXT''
   \<and> ''a.txt'' \<notin> set (collect_files sample_env ''.'' (Some {''.TXT''}))
   \<and> collect_files sample_env ''.'' (Some {''.TXT''}) = []
   \<and> multiprocessing_search sample_env ''.'' [''foo''] (Some {''.TXT''}) True []
        = Inr ([INFO_no_files], Map.empty)"
  by (simp add: multiprocessing_search_def collect_files_def sample_env_def ascii_lower_def lower_char_def)

subsection \<open>The scanner\<close>

text \<open>
  Claim C6. For a readable file and a keyword of the sequence, the scanner records the
  file under the keyword iff, with \<open>case_insensitive\<close>, the lowered keyword is contained
  in the lowered content, and otherwise iff the keyword itself is contained in the
  content. This holds for \<^verbatim>\<open>_scan_file\<close> and for \<^verbatim>\<open>_worker_process\<close> on the one-file chunk;
  on a shared map \<^verbatim>\<open>_scan_file\<close> extends the keyword's list in that case and leaves it
  alone otherwise. The instance below is the keyword \<^verbatim>\<open>Foo\<close> against the content
  \<^verbatim>\<open>the foo bar\<close>.
\<close>

theorem case_sensitivity_toggle:
  assumes "read_text e fp = Inr content"
  shows "((\<exists>ps. snd (scan_file e fp keywords Map.empty ci) kw = Some ps \<and> fp \<in> set ps) \<longleftrightarrow>
            kw \<in> set keywords \<and>
            (if ci then sublist (lower e kw) (lower e content) else sublist kw content))
       \<and> ((\<exists>ps. snd (worker_process e [fp] keywords ci) kw = Some ps \<and> fp \<in> set ps) \<longleftrightarrow>
            kw \<in> set keywords \<and>
            (if ci then sublist (lower e kw) (lower e content) else sublist kw content))
       \<and> snd (scan_file e fp keywords out_map ci) kw =
            (if kw \<in> set keywords \<and>
                (if ci then sublist (lower e kw) (lower e content) else sublist kw content)
             then Some (dd_get out_map kw @ replicate (count_list keywords kw) fp)
             else out_map kw)"
proof -
  have scan: "snd (scan_file e fp keywords m ci) = record_matches e ci content fp keywords m" for m
    using assms by (simp add: scan_file_def read_text_safely_def)
  have work: "snd (worker_process e [fp] keywords ci) = record_matches e ci content fp keywords Map.empty"
    using assms by (simp add: worker_process_def read_text_safely_def)
  have pos: "kw \<in> set keywords \<Longrightarrow> 0 < count_list keywords kw"
    using count_list_0_iff [of "keywords" kw] by auto
  have rec: "(\<exists>ps. record_matches e ci content fp keywords Map.empty kw = Some ps \<and> fp \<in> set ps) \<longleftrightarrow>
            kw \<in> set keywords \<and>
            (if ci then sublist (lower e kw) (lower e content) else sublist kw content)"
    using pos by (auto simp: record_matches_lookup matches_def dd_get_empty)
  have upd: "record_matches e ci content fp keywords out_map kw =
            (if kw \<in> set keywords \<and>
                (if ci then sublist (lower e kw) (lower e content) else sublist kw content)
             then Some (dd_get out_map kw @ replicate (count_list keywords kw) fp)
             else out_map kw)"
    by (simp add: record_matches_lookup matches_def)
  show ?thesis unfolding scan work using rec upd by blast
qed

theorem case_sensitivity_toggle_witness:
  "(\<exists>ps. snd (scan_file sample_env ''d.TXT'' [''Foo''] Map.empty True) ''Foo'' = Some ps
         \<and> ''d.TXT'' \<in> set ps)
   \<and> \<not> (\<exists>ps. snd (scan_file sample_env ''d.TXT'' [''Foo''] Map.empty False) ''Foo'' = Some ps
         \<and> ''d.TXT'' \<in> set ps)
   \<and> (\<exists>ps. snd (worker_process sample_env [''d.TXT''] [''Foo''] True) ''Foo'' = Some ps
         \<and> ''d.TXT'' \<in> set ps)
   \<and> \<not> (\<exists>ps. snd (worker_process sample_env [''d.TXT''] [''Foo''] False) ''Foo'' = Some ps
         \<and> ''d.TXT'' \<in> set ps)"
proof -
  have h: "read_text sample_env ''d.TXT'' = Inr ''the foo bar''" by (simp add: sample_env_def)
  have ins: "sublist (lower sample_env ''Foo'') (lower sample_env ''the foo bar'')"
    by (simp add: sample_env_def ascii_lower_def lower_char_def sublist_Cons_right)
  have sens: "\<not> sublist ''Foo'' ''the foo bar''"
    by (simp add: sublist_Cons_right)
  from case_sensitivity_toggle [OF h, of "[''Foo'']" True "''Foo''"]
       case_sensitivity_toggle [OF h, of "[''Foo'']" False "''Foo''"] ins sens
  show ?thesis by simp
qed

text \<open>
  Claim C8. When a file of a chunk cannot be read or decoded, the scan of the chunk
  still returns: the warning for that file is printed, the local dictionary is the one
  that the chunk without the file produces, the file occurs under no keyword, and every
  match of a readable file of the chunk is recorded. At the level of the search the
  call returns a mapping (no exception), the warning is among the lines printed, the
  file occurs under no keyword, and the matches of all readable files are there.
\<close>

theorem unreadable_file_skipped:
  assumes "fp \<in> set files" and "read_text e fp = Inl x"
  shows "WARN fp x \<in> set (fst (worker_process e files keywords ci))
       \<and> snd (worker_process e files keywords ci)
           = snd (worker_process e (filter (\<lambda>f. f \<noteq> fp) files) keywords ci)
       \<and> (\<forall>K ps. snd (worker_process e files keywords ci) K = Some ps \<longrightarrow> fp \<notin> set ps)
       \<and> (\<forall>K F content. K \<in> set keywords \<and> F \<in> set files \<and> read_text e F = Inr content \<and>
             (if ci then sublist (lower e K) (lower e content) else sublist K content) \<longrightarrow>
             (\<exists>ps. snd (worker_process e files keywords ci) K = Some ps \<and> F \<in> set ps))
       \<and> (files = collect_files e d allow \<longrightarrow>
             (\<exists>out result. multiprocessing_search e d keywords allow ci sched = Inr (out, result)
                \<and> WARN fp x \<in> set out
                \<and> (\<forall>K ps. result K = Some ps \<longrightarrow> fp \<notin> set ps)
                \<and> (\<forall>K F content. K \<in> set keywords \<and> F \<in> set files \<and> read_text e F = Inr content \<and>
                      (if ci then sublist (lower e K) (lower e content) else sublist K content) \<longrightarrow>
                      (\<exists>ps. result K = Some ps \<and> F \<in> set ps))))"
proof -
  let ?w = "worker_process e files keywords ci"
  have "WARN fp x \<in> set (fst (read_text_safely e fp))"
    using assms(2) by (simp add: read_text_safely_def)
  with assms(1) have warn: "WARN fp x \<in> set (fst ?w)"
    by (auto simp: worker_process_def worker_loop_out)
  have same: "snd ?w = snd (worker_process e (filter (\<lambda>f. f \<noteq> fp) files) keywords ci)"
    by (rule no_empty_ext)
       (simp_all add: worker_process_no_empty worker_process_get concat_hits_without [OF assms(2)])
  have ne: "no_empty (snd ?w)" by (rule worker_process_no_empty)
  have notin: "fp \<notin> set ps" if "snd ?w K = Some ps" for K ps
  proof -
    have "fp \<notin> set (dd_get (snd ?w) K)"
      using assms(2) by (auto simp: worker_process_get set_hits)
    with that show ?thesis by (simp add: dd_get_def)
  qed
  have others: "\<exists>ps. snd ?w K = Some ps \<and> F \<in> set ps"
    if "K \<in> set keywords \<and> F \<in> set files \<and> read_text e F = Inr content \<and>
        (if ci then sublist (lower e K) (lower e content) else sublist K content)" for K F content
  proof -
    from that have "F \<in> set (dd_get (snd ?w) K)"
      by (auto simp: worker_process_get set_hits matches_def)
    then show ?thesis using in_result_iff [OF ne] by simp
  qed
  have search: "\<exists>out result. multiprocessing_search e d keywords allow ci sched = Inr (out, result)
                \<and> WARN fp x \<in> set out
                \<and> (\<forall>K ps. result K = Some ps \<longrightarrow> fp \<notin> set ps)
                \<and> (\<forall>K F content. K \<in> set keywords \<and> F \<in> set files \<and> read_text e F = Inr content \<and>
                      (if ci then sublist (lower e K) (lower e content) else sublist K content) \<longrightarrow>
                      (\<exists>ps. result K = Some ps \<and> F \<in> set ps))"
    if fs: "files = collect_files e d allow"
  proof -
    from search_result [of e d "keywords" allow ci sched]
    obtain out m where r: "multiprocessing_search e d keywords allow ci sched = Inr (out, m)"
      and nm: "no_empty m"
      and ms: "\<forall>k. mset (dd_get m k) = mset (concat (map (hits e ci keywords k) (collect_files e d allow)))"
      and w: "\<forall>fp x. fp \<in> set (collect_files e d allow) \<and> read_text e fp = Inl x \<longrightarrow> WARN fp x \<in> set out"
      by blast
    have sets: "set (dd_get m K) = set (concat (map (hits e ci keywords K) files))" for K
      using ms fs by (metis mset_eq_setD)
    have absent: "fp \<notin> set ps" if "m K = Some ps" for K ps
    proof -
      have "fp \<notin> set (dd_get m K)"
        unfolding sets using assms(2) by (auto simp: set_hits)
      with that show ?thesis by (simp add: dd_get_def)
    qed
    have present: "\<exists>ps. m K = Some ps \<and> F \<in> set ps"
      if "K \<in> set keywords \<and> F \<in> set files \<and> read_text e F = Inr content \<and>
          (if ci then sublist (lower e K) (lower e content) else sublist K content)" for K F content
    proof -
      from that have "F \<in> set (dd_get m K)"
        unfolding sets by (auto simp: set_hits matches_def)
      then show ?thesis using in_result_iff [OF nm] by simp
    qed
    have "WARN fp x \<in> set out" using w assms fs by blast
    with r absent present show ?thesis by blast
  qed
  from warn same notin others search show ?thesis by blast
qed

theorem unreadable_file_skipped_witness:
  "WARN ''e.bin'' (UnicodeError ''invalid start byte'')
     \<in> set (fst (worker_process sample_env [''e.bin'', ''a.txt''] [''alpha''] False))
   \<and> (\<exists>ps. snd (worker_process sample_env [''e.bin'', ''a.txt''] [''alpha''] False) ''alpha'' = Some ps
          \<and> ''a.txt'' \<in> set ps)"
proof -
  have h1: "''e.bin'' \<in> set [''e.bin'', ''a.txt'']" by simp
  have h2: "read_text sample_env ''e.bin'' = Inl (UnicodeError ''invalid start byte'')"
    by (simp add: sample_env_def)
  have h3: "''alpha'' \<in> set [''alpha''] \<and> ''a.txt'' \<in> set [''e.bin'', ''a.txt'']
            \<and> read_text sample_env ''a.txt'' = Inr ''alpha beta''
            \<and> (if False then sublist (lower sample_env ''alpha'') (lower sample_env ''alpha beta'') else sublist ''alpha'' ''alpha beta'')"
    by (simp add: sample_env_def)
  from unreadable_file_skipped [OF h1 h2, of "[''alpha'']" False] h3
  show ?thesis by blast
qed

subsection \<open>The search\<close>

text \<open>
  Claim C1. The search returns a mapping in which the path of \<open>F\<close> is in the list of
  keyword \<open>K\<close> iff \<open>K\<close> is one of the keywords, \<open>F\<close> is one of the collected files, and
  \<open>K\<close> is contained in the content of \<open>F\<close> (both lowered when the flag is set); no key
  is bound to the empty list, and a keyword that no file contains is absent.
\<close>

theorem search_completeness:
  "\<exists>out result.
      multiprocessing_search e d keywords allow ci sched = Inr (out, result)
    \<and> (\<forall>K F. (\<exists>ps. result K = Some ps \<and> F \<in> set ps) \<longleftrightarrow>
              K \<in> set keywords \<and> F \<in> set (collect_files e d allow) \<and>
              (\<exists>content. read_text e F = Inr content \<and>
                 (if ci then sublist (lower e K) (lower e content) else sublist K content)))
    \<and> (\<forall>K. result K \<noteq> Some [])
    \<and> (\<forall>K. result K = None \<longleftrightarrow>
              \<not> (K \<in> set keywords \<and>
                 (\<exists>F \<in> set (collect_files e d allow). \<exists>content. read_text e F = Inr content \<and>
                    (if ci then sublist (lower e K) (lower e content) else sublist K content))))"
proof -
  let ?files = "collect_files e d allow"
  obtain out m where r: "multiprocessing_search e d keywords allow ci sched = Inr (out, m)"
    and ne: "no_empty m"
    and ms: "\<forall>k. mset (dd_get m k) = mset (concat (map (hits e ci keywords k) ?files))"
    using search_result [of e d "keywords" allow ci sched] by blast
  have sets: "set (dd_get m K) = set (concat (map (hits e ci keywords K) ?files))" for K
    using ms by (metis mset_eq_setD)
  have iff: "(\<exists>ps. m K = Some ps \<and> F \<in> set ps) \<longleftrightarrow>
               K \<in> set keywords \<and> F \<in> set ?files \<and>
               (\<exists>content. read_text e F = Inr content \<and>
                  (if ci then sublist (lower e K) (lower e content) else sublist K content))" for K F
    using in_result_iff [OF ne, of K F] sets [of K] set_hits_files [of F e ci "keywords" K ?files]
    by (simp add: matches_def)
  have nonempty: "m K \<noteq> Some []" for K
    using ne by (simp add: no_empty_def)
  have absent: "m K = None \<longleftrightarrow>
               \<not> (K \<in> set keywords \<and>
                  (\<exists>F \<in> set ?files. \<exists>content. read_text e F = Inr content \<and>
                     (if ci then sublist (lower e K) (lower e content) else sublist K content)))" for K
  proof -
    have "m K = None \<longleftrightarrow> dd_get m K = []"
      using no_empty_lookup [OF ne, of K] by (simp split: if_splits)
    also have "\<dots> \<longleftrightarrow> set (dd_get m K) = {}" by simp
    also have "\<dots> \<longleftrightarrow> (\<forall>F. \<not> (\<exists>ps. m K = Some ps \<and> F \<in> set ps))"
      using in_result_iff [OF ne, of K] by auto
    also have "\<dots> \<longleftrightarrow> \<not> (K \<in> set keywords \<and>
                  (\<exists>F \<in> set ?files. \<exists>content. read_text e F = Inr content \<and>
                     (if ci then sublist (lower e K) (lower e content) else sublist K content)))"
      unfolding iff by blast
    finally show ?thesis .
  qed
  from r iff nonempty absent show ?thesis by blast
qed

theorem search_completeness_witness:
  "\<exists>out result.
      multiprocessing_search sample_env ''.'' [''alpha'', ''beta'', ''delta'']
          (Some {''.txt''}) False [] = Inr (out, result)
    \<and> (\<exists>ps. result ''beta'' = Some ps \<and> ''b.txt'' \<in> set ps)
    \<and> \<not> (\<exists>ps. result ''alpha'' = Some ps \<and> ''c.md'' \<in> set ps)
    \<and> result ''delta'' = None"
proof -
  let ?kws = "[''alpha'', ''beta'', ''delta'']"
  have files: "collect_files sample_env ''.'' (Some {''.txt''}) = [''a.txt'', ''b.txt'', ''d.TXT'']"
    by (simp add: collect_files_def sample_env_def ascii_lower_def lower_char_def)
  have beta: "read_text sample_env ''b.txt'' = Inr ''beta gamma'' \<and> sublist ''beta'' ''beta gamma''"
    by (simp add: sample_env_def sublist_Cons_right)
  have delta: "\<not> sublist ''delta'' ''alpha beta'' \<and> \<not> sublist ''delta'' ''beta gamma''
               \<and> \<not> sublist ''delta'' ''the foo bar''"
    by (simp add: sublist_Cons_right)
  have reads: "read_text sample_env ''a.txt'' = Inr ''alpha beta''"
     "read_text sample_env ''d.TXT'' = Inr ''the foo bar''"
    by (simp_all add: sample_env_def)
  from search_completeness [of sample_env "''.''" ?kws "Some {''.txt''}" False "[]"]
  obtain out result where
    r: "multiprocessing_search sample_env ''.'' ?kws (Some {''.txt''}) False [] = Inr (out, result)"
    and iff: "\<And>K F. (\<exists>ps. result K = Some ps \<and> F \<in> set ps) \<longleftrightarrow>
              K \<in> set ?kws \<and> F \<in> set (collect_files sample_env ''.'' (Some {''.txt''})) \<and>
              (\<exists>content. read_text sample_env F = Inr content \<and>
                 (if False then sublist (lower sample_env K) (lower sample_env content) else sublist K content))"
    and absent: "\<And>K. result K = None \<longleftrightarrow>
              \<not> (K \<in> set ?kws \<and>
                 (\<exists>F \<in> set (collect_files sample_env ''.'' (Some {''.txt''})).
                    \<exists>content. read_text sample_env F = Inr content \<and>
                    (if False then sublist (lower sample_env K) (lower sample_env content) else sublist K content)))"
    by blast
  have 1: "\<exists>ps. result ''beta'' = Some ps \<and> ''b.txt'' \<in> set ps"
    unfolding iff files using beta by simp
  have 2: "\<not> (\<exists>ps. result ''alpha'' = Some ps \<and> ''c.md'' \<in> set ps)"
    unfolding iff files by simp
  have 3: "result ''delta'' = None"
    unfolding absent files using delta beta reads by simp
  from r 1 2 3 show ?thesis by blast
qed

text \<open>
  Claim C2, as amended. The claim reads: for every keyword sequence, duplicates
  included, a path occurs at most once in the list of a keyword. The code appends the
  path once per occurrence of the keyword in the sequence, so a keyword given twice
  records each matching file twice (evaluated below). What holds for
  \<^verbatim>\<open>multiprocessing_search\<close>, when the enumeration yields no path twice: under a keyword
  the path of a collected, readable file that contains it occurs as many times as the
  keyword occurs in the sequence, and no other path occurs; so with a keyword sequence
  without repeated strings every list of the final mapping is free of duplicates. The
  same holds for every other chunk count. For the threading module: with such a
  keyword sequence one call of \<^verbatim>\<open>_scan_file\<close> adds the path at most once to the list of
  a keyword; nothing is stated about the final mapping of \<^verbatim>\<open>threaded_search\<close>.
\<close>

theorem no_duplication:
  "(distinct (rglob e d) \<longrightarrow>
      (\<exists>out result. multiprocessing_search e d keywords allow ci sched = Inr (out, result)
         \<and> (\<forall>K F. count_list (dd_get result K) F =
               (if F \<in> set (collect_files e d allow) \<and>
                   (\<exists>content. read_text e F = Inr content \<and>
                      (if ci then sublist (lower e K) (lower e content) else sublist K content))
                then count_list keywords K else 0))
         \<and> (distinct keywords \<longrightarrow> (\<forall>K ps. result K = Some ps \<longrightarrow> distinct ps))))
   \<and> (distinct files \<and> files \<noteq> [] \<longrightarrow>
      (\<exists>out result. run_processes e files keywords ci n sched = Inr (out, result)
         \<and> (\<forall>K F. count_list (dd_get result K) F =
               (if F \<in> set files \<and>
                   (\<exists>content. read_text e F = Inr content \<and>
                      (if ci then sublist (lower e K) (lower e content) else sublist K content))
                then count_list keywords K else 0))
         \<and> (distinct keywords \<longrightarrow> (\<forall>K ps. result K = Some ps \<longrightarrow> distinct ps))))
   \<and> (distinct keywords \<longrightarrow>
        count_list (dd_get (snd (scan_file e fp keywords out_map ci)) K) fp
          \<le> Suc (count_list (dd_get out_map K) fp))"
proof -
  have props: "(\<forall>K F. count_list (dd_get m K) F =
               (if F \<in> set fs \<and>
                   (\<exists>content. read_text e F = Inr content \<and>
                      (if ci then sublist (lower e K) (lower e content) else sublist K content))
                then count_list keywords K else 0))
         \<and> (distinct keywords \<longrightarrow> (\<forall>K ps. m K = Some ps \<longrightarrow> distinct ps))"
    if ms: "\<forall>k. mset (dd_get m k) = mset (concat (map (hits e ci keywords k) fs))"
      and df: "distinct fs" for m :: result and fs
  proof -
    have cnt: "count_list (dd_get m K) F =
               (if F \<in> set fs \<and>
                   (\<exists>content. read_text e F = Inr content \<and>
                      (if ci then sublist (lower e K) (lower e content) else sublist K content))
                then count_list keywords K else 0)" for K F
    proof -
      have "count_list (dd_get m K) F = count_list (concat (map (hits e ci keywords K) fs)) F"
        using ms by (intro mset_eq_count_list) simp
      then show ?thesis using df by (simp add: count_list_hits_files matches_def)
    qed
    have dist: "distinct ps" if dk: "distinct keywords" and some: "m K = Some ps" for K ps
    proof -
      have "distinct (concat (map (hits e ci keywords K) fs))"
        using dk df by (rule distinct_hits)
      moreover have "mset (dd_get m K) = mset (concat (map (hits e ci keywords K) fs))"
        using ms by simp
      ultimately have "distinct (dd_get m K)" by (metis mset_eq_imp_distinct_iff)
      with some show ?thesis by (simp add: dd_get_def)
    qed
    from cnt dist show ?thesis by blast
  qed
  have 1: "\<exists>out result. multiprocessing_search e d keywords allow ci sched = Inr (out, result)
         \<and> (\<forall>K F. count_list (dd_get result K) F =
               (if F \<in> set (collect_files e d allow) \<and>
                   (\<exists>content. read_text e F = Inr content \<and>
                      (if ci then sublist (lower e K) (lower e content) else sublist K content))
                then count_list keywords K else 0))
         \<and> (distinct keywords \<longrightarrow> (\<forall>K ps. result K = Some ps \<longrightarrow> distinct ps))"
    if dr: "distinct (rglob e d)"
  proof -
    obtain out m where r: "multiprocessing_search e d keywords allow ci sched = Inr (out, m)"
      and ms: "\<forall>k. mset (dd_get m k) = mset (concat (map (hits e ci keywords k) (collect_files e d allow)))"
      using search_result [of e d "keywords" allow ci sched] by blast
    have "distinct (collect_files e d allow)" using dr by (rule collect_files_distinct)
    from props [OF ms this] r show ?thesis by blast
  qed
  have 2: "\<exists>out result. run_processes e files keywords ci n sched = Inr (out, result)
         \<and> (\<forall>K F. count_list (dd_get result K) F =
               (if F \<in> set files \<and>
                   (\<exists>content. read_text e F = Inr content \<and>
                      (if ci then sublist (lower e K) (lower e content) else sublist K content))
                then count_list keywords K else 0))
         \<and> (distinct keywords \<longrightarrow> (\<forall>K ps. result K = Some ps \<longrightarrow> distinct ps))"
    if df: "distinct files" and nf: "files \<noteq> []"
  proof -
    obtain cs where "chunks files n = Inr cs"
      using chunks_returns [of files n] nf by blast
    from run_processes_result [OF this, of e "keywords" ci sched]
    obtain out m where r: "run_processes e files keywords ci n sched = Inr (out, m)"
      and ms: "\<forall>k. mset (dd_get m k) = mset (concat (map (hits e ci keywords k) files))"
      by blast
    from props [OF ms df] r show ?thesis by blast
  qed
  have 3: "count_list (dd_get (snd (scan_file e fp keywords out_map ci)) K) fp
            \<le> Suc (count_list (dd_get out_map K) fp)" if dk: "distinct keywords"
  proof (cases "read_text e fp")
    case (Inl x)
    then show ?thesis by (simp add: scan_file_def read_text_safely_def)
  next
    case (Inr content)
    have once: "count_list keywords K \<le> 1"
      using dk by (rule distinct_count_list_le)
    from Inr have "dd_get (snd (scan_file e fp keywords out_map ci)) K
                 = dd_get out_map K @ map (\<lambda>kw. fp) (found e ci content keywords K)"
      by (simp add: scan_file_def read_text_safely_def record_matches_get)
    then show ?thesis using once by (simp add: found_count count_list_replicate_same)
  qed
  from 1 2 3 show ?thesis by blast
qed

theorem no_duplication_witness:
  "\<exists>out result.
      multiprocessing_search sample_env ''.'' [''alpha'', ''beta'', ''delta'']
          (Some {''.txt''}) False [1] = Inr (out, result)
    \<and> count_list (dd_get result ''beta'') ''b.txt'' = 1
    \<and> (\<forall>ps. result ''beta'' = Some ps \<longrightarrow> distinct ps)"
proof -
  have h1: "distinct [''alpha'', ''beta'', ''delta'']" by simp
  have h2: "distinct (rglob sample_env ''.'')" by (simp add: sample_env_def)
  have h3: "''b.txt'' \<in> set (collect_files sample_env ''.'' (Some {''.txt''}))
            \<and> read_text sample_env ''b.txt'' = Inr ''beta gamma''
            \<and> sublist ''beta'' ''beta gamma''
            \<and> count_list [''alpha'', ''beta'', ''delta''] ''beta'' = 1"
    by (simp add: collect_files_def sample_env_def ascii_lower_def lower_char_def sublist_Cons_right)
  have "distinct (rglob sample_env ''.'') \<longrightarrow>
      (\<exists>out result. multiprocessing_search sample_env ''.'' [''alpha'', ''beta'', ''delta'']
            (Some {''.txt''}) False [1] = Inr (out, result)
         \<and> (\<forall>K F. count_list (dd_get result K) F =
               (if F \<in> set (collect_files sample_env ''.'' (Some {''.txt''})) \<and>
                   (\<exists>content. read_text sample_env F = Inr content \<and>
                      (if False then sublist (lower sample_env K) (lower sample_env content)
                       else sublist K content))
                then count_list [''alpha'', ''beta'', ''delta''] K else 0))
         \<and> (distinct [''alpha'', ''beta'', ''delta''] \<longrightarrow>
              (\<forall>K ps. result K = Some ps \<longrightarrow> distinct ps)))"
    using no_duplication [of sample_env "''.''" "[''alpha'', ''beta'', ''delta'']" "Some {''.txt''}"
            False "[1]"]
    by (rule conjunct1)
  with h2 obtain out result where
    r: "multiprocessing_search sample_env ''.'' [''alpha'', ''beta'', ''delta'']
          (Some {''.txt''}) False [1] = Inr (out, result)"
    and cnt: "\<And>K F. count_list (dd_get result K) F =
               (if F \<in> set (collect_files sample_env ''.'' (Some {''.txt''})) \<and>
                   (\<exists>content. read_text sample_env F = Inr content \<and>
                      (if False then sublist (lower sample_env K) (lower sample_env content)
                       else sublist K content))
                then count_list [''alpha'', ''beta'', ''delta''] K else 0)"
    and dist: "distinct [''alpha'', ''beta'', ''delta''] \<longrightarrow>
              (\<forall>K ps. result K = Some ps \<longrightarrow> distinct ps)"
    by blast
  have "count_list (dd_get result ''beta'') ''b.txt'' = 1"
    unfolding cnt using h3 by simp
  with r dist h1 show ?thesis by blast
qed

text \<open>The keyword \<^verbatim>\<open>alpha\<close> given twice, one matching file.\<close>

theorem duplicate_keyword_recorded_twice:
  "(case multiprocessing_search sample_env ''.'' [''alpha'', ''alpha''] (Some {''.md''}) False [] of
      Inl x \<Rightarrow> None
    | Inr (out, result) \<Rightarrow> result ''alpha'') = Some [''c.md'', ''c.md'']"
proof -
  have files: "collect_files sample_env ''.'' (Some {''.md''}) = [''c.md'']"
    by (simp add: collect_files_def sample_env_def ascii_lower_def lower_char_def)
  have n: "num_procs sample_env [''c.md''] = 1"
    by (simp add: num_procs_def max_procs_def cpu_count_or_def sample_env_def)
  have cs: "chunks [''c.md''] 1 = Inr [[''c.md'']]"
    by (simp add: chunks_def py_range_def range_up.simps slice_def)
  have rd: "read_text sample_env ''c.md'' = Inr ''alpha''" by (simp add: sample_env_def)
  have w: "snd (worker_process sample_env [''c.md''] [''alpha'', ''alpha''] False) ''alpha''
             = Some [''c.md'', ''c.md'']"
    by (simp add: worker_process_def read_text_safely_def rd record_matches_lookup matches_def dd_get_def)
  show ?thesis
    by (simp add: multiprocessing_search_def files n run_processes_def cs Let_def
          dd_extend_all_def dd_get_def w split: prod.splits)
qed

text \<open>
  Claim C3. For a non-empty file list and two positive chunk counts, whatever the
  arrival orders, the two final mappings have the same (keyword, path) pairs, and even
  the same paths with the same multiplicities under every keyword. The same holds
  for the search under two different CPU counts, the empty file list included.
\<close>

theorem partition_invariance:
  "(files \<noteq> [] \<and> 0 < n1 \<and> 0 < n2 \<longrightarrow>
      (\<exists>out1 result1 out2 result2.
          run_processes e files keywords ci n1 sched1 = Inr (out1, result1)
        \<and> run_processes e files keywords ci n2 sched2 = Inr (out2, result2)
        \<and> pairs result1 = pairs result2
        \<and> (\<forall>K. mset (dd_get result1 K) = mset (dd_get result2 K))))
   \<and> (\<exists>out1 result1 out2 result2.
          multiprocessing_search (e\<lparr>cpu_count := c1\<rparr>) d keywords allow ci sched1 = Inr (out1, result1)
        \<and> multiprocessing_search (e\<lparr>cpu_count := c2\<rparr>) d keywords allow ci sched2 = Inr (out2, result2)
        \<and> pairs result1 = pairs result2
        \<and> (\<forall>K. mset (dd_get result1 K) = mset (dd_get result2 K)))"
proof -
  have same: "pairs m1 = pairs m2 \<and> (\<forall>K. mset (dd_get m1 K) = mset (dd_get m2 K))"
    if "no_empty m1" and "no_empty m2"
      and "\<forall>k. mset (dd_get m1 k) = mset (concat (map (hits e ci keywords k) fs))"
      and "\<forall>k. mset (dd_get m2 k) = mset (concat (map (hits e ci keywords k) fs))"
    for m1 m2 :: result and fs
  proof -
    have ms: "mset (dd_get m1 K) = mset (dd_get m2 K)" for K using that(3,4) by simp
    then have "set (dd_get m1 K) = set (dd_get m2 K)" for K by (metis mset_eq_setD)
    then have "pairs m1 = pairs m2" using that(1,2) by (simp add: pairs_dd_get)
    with ms show ?thesis by blast
  qed
  have 1: "\<exists>out1 result1 out2 result2.
          run_processes e files keywords ci n1 sched1 = Inr (out1, result1)
        \<and> run_processes e files keywords ci n2 sched2 = Inr (out2, result2)
        \<and> pairs result1 = pairs result2
        \<and> (\<forall>K. mset (dd_get result1 K) = mset (dd_get result2 K))"
    if nf: "files \<noteq> []"
  proof -
    obtain cs1 where c1: "chunks files n1 = Inr cs1" using chunks_returns [of files n1] nf by blast
    obtain cs2 where c2: "chunks files n2 = Inr cs2" using chunks_returns [of files n2] nf by blast
    from run_processes_result [OF c1, of e "keywords" ci sched1]
    obtain out1 m1 where r1: "run_processes e files keywords ci n1 sched1 = Inr (out1, m1)"
      "no_empty m1" "\<forall>k. mset (dd_get m1 k) = mset (concat (map (hits e ci keywords k) files))"
      by blast
    from run_processes_result [OF c2, of e "keywords" ci sched2]
    obtain out2 m2 where r2: "run_processes e files keywords ci n2 sched2 = Inr (out2, m2)"
      "no_empty m2" "\<forall>k. mset (dd_get m2 k) = mset (concat (map (hits e ci keywords k) files))"
      by blast
    from same [OF r1(2) r2(2) r1(3) r2(3)] r1(1) r2(1) show ?thesis by blast
  qed
  have 2: "\<exists>out1 result1 out2 result2.
          multiprocessing_search (e\<lparr>cpu_count := c1\<rparr>) d keywords allow ci sched1 = Inr (out1, result1)
        \<and> multiprocessing_search (e\<lparr>cpu_count := c2\<rparr>) d keywords allow ci sched2 = Inr (out2, result2)
        \<and> pairs result1 = pairs result2
        \<and> (\<forall>K. mset (dd_get result1 K) = mset (dd_get result2 K))"
  proof -
    from search_result [of "e\<lparr>cpu_count := c1\<rparr>" d "keywords" allow ci sched1]
    obtain out1 m1 where r1:
      "multiprocessing_search (e\<lparr>cpu_count := c1\<rparr>) d keywords allow ci sched1 = Inr (out1, m1)"
      "no_empty m1"
      "\<forall>k. mset (dd_get m1 k) = mset (concat (map (hits e ci keywords k) (collect_files e d allow)))"
      by auto
    from search_result [of "e\<lparr>cpu_count := c2\<rparr>" d "keywords" allow ci sched2]
    obtain out2 m2 where r2:
      "multiprocessing_search (e\<lparr>cpu_count := c2\<rparr>) d keywords allow ci sched2 = Inr (out2, m2)"
      "no_empty m2"
      "\<forall>k. mset (dd_get m2 k) = mset (concat (map (hits e ci keywords k) (collect_files e d allow)))"
      by auto
    from same [OF r1(2) r2(2) r1(3) r2(3)] r1(1) r2(1) show ?thesis by blast
  qed
  from 1 2 show ?thesis by blast
qed

theorem partition_invariance_witness:
  "\<exists>out1 result1 out2 result2.
      run_processes sample_env [''a.txt'', ''b.txt'', ''c.md''] [''alpha'', ''beta''] False 1 []
        = Inr (out1, result1)
    \<and> run_processes sample_env [''a.txt'', ''b.txt'', ''c.md''] [''alpha'', ''beta''] False 3 [2, 0]
        = Inr (out2, result2)
    \<and> pairs result1 = pairs result2"
proof -
  have h: "[''a.txt'', ''b.txt'', ''c.md''] \<noteq> [] \<and> (0::int) < 1 \<and> (0::int) < 3" by simp
  have "[''a.txt'', ''b.txt'', ''c.md''] \<noteq> [] \<and> (0::int) < 1 \<and> (0::int) < 3 \<longrightarrow>
      (\<exists>out1 result1 out2 result2.
          run_processes sample_env [''a.txt'', ''b.txt'', ''c.md''] [''alpha'', ''beta''] False 1 []
            = Inr (out1, result1)
        \<and> run_processes sample_env [''a.txt'', ''b.txt'', ''c.md''] [''alpha'', ''beta''] False 3 [2, 0]
            = Inr (out2, result2)
        \<and> pairs result1 = pairs result2
        \<and> (\<forall>K. mset (dd_get result1 K) = mset (dd_get result2 K)))"
    using partition_invariance [of "[''a.txt'', ''b.txt'', ''c.md'']" 1 3 sample_env
            "[''alpha'', ''beta'']" False "[]" "[2, 0]"]
    by (rule conjunct1)
  with h show ?thesis by blast
qed

end
